theory Spec2Isabelle
  imports Complex_Main "HOL-Library.Sublist" "HOL-Library.Multiset"
    "HOL-Library.Char_ord" "HOL-Library.List_Lexorder"
begin

section \<open>Login throttle (authentication-controller.js)\<close>

text \<open>
  The controller keeps one module-level object \<^verbatim>\<open>loginAttempts\<close>, keyed by the e-mail
  address of the request, whose values are objects \<^verbatim>\<open>{count, timestamp}\<close>.  The
  timestamp is what \<^verbatim>\<open>Date.now()\<close> returns: an integer number of milliseconds.  The
  object is modelled as a map that is passed in and returned; the clock readings are
  parameters.  Keys are e-mail addresses, which never coincide with a property name
  inherited from \<^verbatim>\<open>Object.prototype\<close>.  One request is modelled at a time: interleaving
  of two requests at the \<^verbatim>\<open>await\<close> is outside the model.
\<close>

datatype js_error = TypeError | ServiceError

record attempt =
  count_attempt :: int
  timestamp :: int

type_synonym loginAttempts = "string \<rightharpoonup> attempt"

text \<open>
  What \<^verbatim>\<open>login\<close> hands to \<^verbatim>\<open>next\<close> or to \<^verbatim>\<open>response\<close>: the FORBIDDEN error of
  line 40 with the remaining seconds it was built from, the FORBIDDEN error of line 56,
  any other error caught at line 66, or the 200 response carrying the login result.
\<close>

datatype 'a login_result =
    TooManyAttempts int
  | WrongCredentials
  | Raised js_error
  | LoggedIn 'a

text \<open>
  Lines 20-24.  \<^verbatim>\<open>(Date.now() - lastAttemptTime) / 1000\<close> followed by \<^verbatim>\<open>Math.floor\<close> is
  the floor of a quotient of integers, which is \<open>div\<close> on \<open>int\<close> (see
  \<open>elapsed_seconds_floor\<close> below).  Reading \<^verbatim>\<open>.timestamp\<close> of a missing record is a
  TypeError.
\<close>

definition calculateRemainingTime :: "loginAttempts \<Rightarrow> string \<Rightarrow> int \<Rightarrow> js_error + int" where
  "calculateRemainingTime la email now =
     (case la email of
        None \<Rightarrow> Inl TypeError
      | Some r \<Rightarrow>
          (let lastAttemptTime = timestamp r;
               elapsedTime = (now - lastAttemptTime) div 1000
           in Inr (max 0 (1800 - elapsedTime))))"

text \<open>Lines 28-33: a missing record is created with \<^verbatim>\<open>count: 1\<close>.\<close>

definition initAttempt :: "loginAttempts \<Rightarrow> string \<Rightarrow> int \<Rightarrow> loginAttempts" where
  "initAttempt la email now =
     (if la email = None
      then la(email \<mapsto> \<lparr>count_attempt = 1, timestamp = now\<rparr>)
      else la)"

text \<open>
  Lines 16-69.  \<open>checkLoginCredentials\<close> is the call into the authentication service:
  it throws (\<open>Inl\<close>), returns a falsy value (\<open>Inr None\<close>) or the login result
  (\<open>Inr (Some x)\<close>).  \<open>now\<close> is the clock on entry (read at line 31 or at line 22,
  never both in one call), \<open>later\<close> the clock at line 54, after the \<^verbatim>\<open>await\<close>.
\<close>

definition login ::
  "(string \<Rightarrow> string \<Rightarrow> js_error + 'a option) \<Rightarrow> loginAttempts \<Rightarrow> string \<Rightarrow> string \<Rightarrow>
     int \<Rightarrow> int \<Rightarrow> 'a login_result \<times> loginAttempts" where
  "login checkLoginCredentials la email password now later =
     (let la1 = initAttempt la email now in
      case la1 email of
        None \<Rightarrow> (Raised TypeError, la1)
      | Some rec \<Rightarrow>
          (let attempts = count_attempt rec in
           if attempts > 5 then
             (case calculateRemainingTime la1 email now of
                Inl err \<Rightarrow> (Raised err, la1)
              | Inr remainingTime \<Rightarrow> (TooManyAttempts remainingTime, la1))
           else
             (case checkLoginCredentials email password of
                Inl err \<Rightarrow> (Raised err, la1)
              | Inr None \<Rightarrow>
                  (WrongCredentials,
                   la1(email \<mapsto> \<lparr>count_attempt = attempts + 1, timestamp = later\<rparr>))
              | Inr (Some loginSuccess) \<Rightarrow> (LoggedIn loginSuccess, la1(email := None)))))"

text \<open>Concrete data for the closed statements below.\<close>

definition locked_identity :: string where
  "locked_identity = ''ann@example.com''"

definition locked_attempts :: loginAttempts where
  "locked_attempts = [locked_identity \<mapsto> \<lparr>count_attempt = 6, timestamp = 0\<rparr>]"

definition accept_all :: "string \<Rightarrow> string \<Rightarrow> js_error + unit option" where
  "accept_all email password = Inr (Some ())"

definition reject_all :: "string \<Rightarrow> string \<Rightarrow> js_error + unit option" where
  "reject_all email password = Inr None"


section \<open>User query engine (users-service, \<^verbatim>\<open>getUsers\<close>)\<close>

text \<open>
  A user document as the service reads it.  The schema file is not part of the sources
  at hand; the attributes are those the repository's \<^verbatim>\<open>createUser\<close> stores (all of them
  strings, the balance included) together with the \<^verbatim>\<open>id\<close> that the projection reads.
  Strings are ASCII: \<^verbatim>\<open>trim\<close>, \<^verbatim>\<open>toLowerCase\<close> and the comparison of strings act on
  single characters.
\<close>

record user =
  id_user :: string
  name :: string
  email :: string
  phone :: string
  account_number :: string
  balance :: string
  password :: string

text \<open>
  The dynamic access \<^verbatim>\<open>user[field]\<close>.  For the string attributes it yields the stored
  string.  For any other property name the value is \<^verbatim>\<open>undefined\<close> or not a string, so
  that the method call that follows (\<^verbatim>\<open>.includes\<close>, \<^verbatim>\<open>.toLowerCase\<close>) throws a
  TypeError: \<open>None\<close>.
\<close>

definition user_get :: "user \<Rightarrow> string \<Rightarrow> string option" where
  "user_get u field =
     (if field = ''id'' then Some (id_user u)
      else if field = ''name'' then Some (name u)
      else if field = ''email'' then Some (email u)
      else if field = ''phone'' then Some (phone u)
      else if field = ''account_number'' then Some (account_number u)
      else if field = ''balance'' then Some (balance u)
      else if field = ''password'' then Some (password u)
      else None)"

text \<open>The property names on which \<open>user_get\<close> yields a string.\<close>

definition user_fields :: "string list" where
  "user_fields = [''id'', ''name'', ''email'', ''phone'', ''account_number'', ''balance'', ''password'']"

text \<open>
  \<^verbatim>\<open>String.prototype.split\<close> with a one-character separator: the empty string gives one
  empty part, and every occurrence of the separator starts a new part.
\<close>

fun split_str :: "char \<Rightarrow> string \<Rightarrow> string list" where
  "split_str sep [] = [[]]"
| "split_str sep (c # cs) =
     (if c = sep then [] # split_str sep cs
      else (case split_str sep cs of
              [] \<Rightarrow> [[c]]
            | p # ps \<Rightarrow> (c # p) # ps))"

text \<open>\<^verbatim>\<open>String.prototype.trim\<close>: tab, line feed, vertical tab, form feed, carriage return, space.\<close>

definition is_space :: "char \<Rightarrow> bool" where
  "is_space c = (c \<in> set [CHR 0x09, CHR 0x0A, CHR 0x0B, CHR 0x0C, CHR 0x0D, CHR '' ''])"

definition trim :: "string \<Rightarrow> string" where
  "trim s = rev (dropWhile is_space (rev (dropWhile is_space s)))"

text \<open>\<^verbatim>\<open>String.prototype.toLowerCase\<close> on ASCII.\<close>

definition lower_char :: "char \<Rightarrow> char" where
  "lower_char c =
     (case map_of (zip ''ABCDEFGHIJKLMNOPQRSTUVWXYZ'' ''abcdefghijklmnopqrstuvwxyz'') c of
        None \<Rightarrow> c
      | Some l \<Rightarrow> l)"

definition toLowerCase :: "string \<Rightarrow> string" where
  "toLowerCase s = map lower_char s"

text \<open>
  \<^verbatim>\<open>String.prototype.includes\<close>: the argument occurs at some position of the string.
  That this is the contiguous-sublist relation is \<open>includes_str_sublist\<close> below.
\<close>

fun includes_str :: "string \<Rightarrow> string \<Rightarrow> bool" where
  "includes_str [] val = (val = [])"
| "includes_str (c # cs) val = (prefix val (c # cs) \<or> includes_str cs val)"

text \<open>
  Lines 72-75: \<^verbatim>\<open>filteredUsers.filter((user) => user[field].includes(value))\<close>.  The
  callback throws when \<^verbatim>\<open>user[field]\<close> has no \<^verbatim>\<open>includes\<close>; on an empty array it is
  never called.
\<close>

fun filter_includes :: "string \<Rightarrow> string \<Rightarrow> user list \<Rightarrow> js_error + user list" where
  "filter_includes field val [] = Inr []"
| "filter_includes field val (u # us) =
     (case user_get u field of
        None \<Rightarrow> Inl TypeError
      | Some s \<Rightarrow>
          (case filter_includes field val us of
             Inl err \<Rightarrow> Inl err
           | Inr kept \<Rightarrow> Inr (if includes_str s val then u # kept else kept)))"

text \<open>
  Lines 67-83.  \<open>Inr None\<close> is the \<^verbatim>\<open>return null\<close> of line 80; \<open>Inr (Some fs)\<close> is
  the array the function goes on with.  An absent or empty \<^verbatim>\<open>search\<close> is falsy.
\<close>

definition search_users :: "string option \<Rightarrow> user list \<Rightarrow> js_error + user list option" where
  "search_users search users =
     (case search of
        None \<Rightarrow> Inr (Some users)
      | Some s \<Rightarrow>
          if s = [] then Inr (Some users)
          else (case map trim (split_str CHR '':'' s) of
                  [field, val] \<Rightarrow>
                    (case filter_includes field val users of
                       Inl err \<Rightarrow> Inl err
                     | Inr filteredBySearch \<Rightarrow>
                         if length filteredBySearch = 0 then Inr None
                         else Inr (Some filteredBySearch))
                | _ \<Rightarrow> Inr (Some users)))"

text \<open>
  Lines 97-104, the comparator handed to \<^verbatim>\<open>sort\<close>.  \<open><\<close> on strings is the
  lexicographic order by character code, as in JavaScript.
\<close>

definition compare_users :: "string \<Rightarrow> int \<Rightarrow> user \<Rightarrow> user \<Rightarrow> js_error + int" where
  "compare_users sortBy sortOrder a b =
     (case user_get a sortBy of
        None \<Rightarrow> Inl TypeError
      | Some va \<Rightarrow>
          (case user_get b sortBy of
             None \<Rightarrow> Inl TypeError
           | Some vb \<Rightarrow>
               (let valueA = toLowerCase va; valueB = toLowerCase vb
                in if valueA < valueB then Inr (- 1 * sortOrder)
                   else if valueA > valueB then Inr (1 * sortOrder)
                   else Inr 0)))"

text \<open>
  \<^verbatim>\<open>Array.prototype.sort\<close> with a comparator.  The language defines it as a stable sort;
  it is modelled by insertion from the right, where an element goes in front of the
  first element it does not compare greater than.  A comparator that throws aborts the
  sort.
\<close>

fun insert_sorted :: "('a \<Rightarrow> 'a \<Rightarrow> js_error + int) \<Rightarrow> 'a \<Rightarrow> 'a list \<Rightarrow> js_error + 'a list" where
  "insert_sorted cmp x [] = Inr [x]"
| "insert_sorted cmp x (y # ys) =
     (case cmp x y of
        Inl err \<Rightarrow> Inl err
      | Inr c \<Rightarrow>
          if c \<le> 0 then Inr (x # y # ys)
          else (case insert_sorted cmp x ys of
                  Inl err \<Rightarrow> Inl err
                | Inr r \<Rightarrow> Inr (y # r)))"

fun array_sort :: "('a \<Rightarrow> 'a \<Rightarrow> js_error + int) \<Rightarrow> 'a list \<Rightarrow> js_error + 'a list" where
  "array_sort cmp [] = Inr []"
| "array_sort cmp (x # xs) =
     (case array_sort cmp xs of
        Inl err \<Rightarrow> Inl err
      | Inr r \<Rightarrow> insert_sorted cmp x r)"

text \<open>Lines 85-106.\<close>

definition sort_users :: "string option \<Rightarrow> user list \<Rightarrow> js_error + user list" where
  "sort_users sort_spec filteredUsers =
     (case sort_spec of
        None \<Rightarrow> Inr filteredUsers
      | Some s \<Rightarrow>
          if s = [] then Inr filteredUsers
          else (case map (\<lambda>part. toLowerCase (trim part)) (split_str CHR '':'' s) of
                  [field, order] \<Rightarrow>
                    (let sortBy = (if field = ''name'' \<or> field = ''email'' then field else ''email'');
                         sortOrder = (if order = ''desc'' then - 1 else 1)
                     in array_sort (compare_users sortBy sortOrder) filteredUsers)
                | _ \<Rightarrow> Inr filteredUsers))"

text \<open>
  Lines 117-124: the object literal pushed for each user, as the list of its keys and
  values in the order they are written.
\<close>

type_synonym summary = "(string \<times> string) list"

definition summary_of :: "user \<Rightarrow> summary" where
  "summary_of u =
     [(''id'', id_user u), (''name'', name u), (''balance'', balance u),
      (''email'', email u), (''phone'', phone u), (''account_number'', account_number u)]"

text \<open>
  Lines 115-125, the loop, with \<open>i\<close> its counter and \<open>acc\<close> the array \<^verbatim>\<open>data\<close> so far.
  For a negative index \<^verbatim>\<open>filteredUsers[i]\<close> is \<^verbatim>\<open>undefined\<close> and reading \<^verbatim>\<open>user.id\<close>
  throws.
\<close>

function collect :: "user list \<Rightarrow> int \<Rightarrow> int \<Rightarrow> summary list \<Rightarrow> js_error + summary list" where
  "collect filteredUsers i endIndex acc =
     (if i < endIndex \<and> i < int (length filteredUsers)
      then (if i < 0 then Inl TypeError
            else collect filteredUsers (i + 1) endIndex (acc @ [summary_of (filteredUsers ! nat i)]))
      else Inr acc)"
  by pat_completeness auto
termination
  by (relation "measure (\<lambda>(fu, i, e, acc). nat (int (length fu) - i))") auto

text \<open>
  The numbers \<^verbatim>\<open>Math.ceil(filteredCount / limit)\<close> can be: an integer, \<^verbatim>\<open>NaN\<close> for
  \<^verbatim>\<open>0 / 0\<close>, or an infinity for a non-zero count over 0.  For a divisor other than 0
  the ceiling of the quotient is \<open>- ((- a) div b)\<close> (\<open>ceil_div_ceiling\<close> below).
  \<open>js_less\<close> is \<^verbatim>\<open>page < total_pages\<close>: every comparison with \<^verbatim>\<open>NaN\<close> is false.
\<close>

datatype jsnum = Num int | NaN | PosInfinity | NegInfinity

definition ceil_div :: "int \<Rightarrow> int \<Rightarrow> jsnum" where
  "ceil_div a b =
     (if b = 0 then (if a = 0 then NaN else if 0 < a then PosInfinity else NegInfinity)
      else Num (- ((- a) div b)))"

fun js_less :: "int \<Rightarrow> jsnum \<Rightarrow> bool" where
  "js_less n (Num m) = (n < m)"
| "js_less n NaN = False"
| "js_less n PosInfinity = True"
| "js_less n NegInfinity = False"

text \<open>The object returned at lines 131-139.\<close>

record query_result =
  page_number :: int
  page_size :: int
  count_result :: int
  total_pages :: jsnum
  has_previous_page :: bool
  has_next_page :: bool
  data :: "summary list"

text \<open>
  Lines 63-139, the body of the \<^verbatim>\<open>try\<close>.  \<open>users\<close> is what the repository returned;
  \<open>page\<close> is an integer, \<open>limit\<close> an integer or \<^verbatim>\<open>undefined\<close> (\<open>None\<close>), as the
  controller passes them; \<^verbatim>\<open>!limit\<close> also holds for 0.  \<open>Inr None\<close> is the
  \<^verbatim>\<open>return null\<close> of line 80.
\<close>

definition getUsers_try ::
  "int \<Rightarrow> int option \<Rightarrow> string option \<Rightarrow> string option \<Rightarrow> user list \<Rightarrow>
     js_error + query_result option" where
  "getUsers_try page limit search sort_spec users =
     (case search_users search users of
        Inl err \<Rightarrow> Inl err
      | Inr None \<Rightarrow> Inr None
      | Inr (Some filteredUsers) \<Rightarrow>
          (case sort_users sort_spec filteredUsers of
             Inl err \<Rightarrow> Inl err
           | Inr sortedUsers \<Rightarrow>
               (let filteredCount = int (length filteredUsers);
                    limit1 = (case limit of
                                None \<Rightarrow> filteredCount
                              | Some l \<Rightarrow> if l = 0 then filteredCount else l);
                    startIndex = (page - 1) * limit1;
                    endIndex = page * limit1
                in case collect sortedUsers startIndex endIndex [] of
                     Inl err \<Rightarrow> Inl err
                   | Inr items \<Rightarrow>
                       (let pages = ceil_div filteredCount limit1
                        in Inr (Some \<lparr>page_number = page, page_size = limit1,
                                       count_result = filteredCount, total_pages = pages,
                                       has_previous_page = (page > 1),
                                       has_next_page = js_less page pages,
                                       data = items\<rparr>)))))"

text \<open>
  Lines 62-144: the \<^verbatim>\<open>catch\<close> of lines 140-143 turns every exception into \<^verbatim>\<open>null\<close>.
  The controller answers \<^verbatim>\<open>null\<close> with the NOT_FOUND error and anything else with
  status 200.
\<close>

definition getUsers ::
  "int \<Rightarrow> int option \<Rightarrow> string option \<Rightarrow> string option \<Rightarrow> user list \<Rightarrow> query_result option" where
  "getUsers page limit search sort_spec users =
     (case getUsers_try page limit search sort_spec users of
        Inl err \<Rightarrow> None
      | Inr r \<Rightarrow> r)"

text \<open>
  The sort key in the words of the specification: the name when the field is
  \<open>name\<close>, the e-mail address for every other field, in lower case.
\<close>

definition spec_sort_key :: "string \<Rightarrow> user \<Rightarrow> string" where
  "spec_sort_key field u = toLowerCase (if field = ''name'' then name u else email u)"

text \<open>Concrete users for the closed statements below.\<close>

definition mk_user :: "string \<Rightarrow> string \<Rightarrow> string \<Rightarrow> user" where
  "mk_user i n e =
     \<lparr>id_user = i, name = n, email = e, phone = ''0800'', account_number = ''5351'',
      balance = ''0'', password = ''$2b$hash''\<rparr>"

definition alice :: user where "alice = mk_user ''u0'' ''Alice'' ''alice@example.com''"

definition john :: user where "john = mk_user ''u1'' ''John'' ''john@example.com''"

definition bob :: user where "bob = mk_user ''u2'' ''Bob'' ''bob@example.com''"

definition joan :: user where "joan = mk_user ''u3'' ''Joan'' ''joan@example.com''"

definition bobby :: user where "bobby = mk_user ''u4'' ''BOB'' ''bobby@example.com''"

definition five_users :: "user list" where
  "five_users = [alice, john, bob, joan, bobby]"


section \<open>Facts about the throttle\<close>

lemma elapsed_seconds_floor:
  "\<lfloor>real_of_int (now - ts) / 1000\<rfloor> = (now - ts) div 1000"
  using floor_divide_of_int_eq [of "now - ts" 1000, where ?'a = real] by simp

lemma initAttempt_existing: "la ident = Some r \<Longrightarrow> initAttempt la ident now = la"
  by (simp add: initAttempt_def)

lemma initAttempt_missing:
  "la ident = None \<Longrightarrow> initAttempt la ident now = la(ident \<mapsto> \<lparr>count_attempt = 1, timestamp = now\<rparr>)"
  by (simp add: initAttempt_def)

lemma login_existing:
  "la ident = Some r \<Longrightarrow>
   login chk la ident pw now later =
     (if count_attempt r > 5
      then (TooManyAttempts (max 0 (1800 - (now - timestamp r) div 1000)), la)
      else (case chk ident pw of
              Inl err \<Rightarrow> (Raised err, la)
            | Inr None \<Rightarrow>
                (WrongCredentials,
                 la(ident \<mapsto> \<lparr>count_attempt = count_attempt r + 1, timestamp = later\<rparr>))
            | Inr (Some x) \<Rightarrow> (LoggedIn x, la(ident := None))))"
  by (simp add: login_def initAttempt_existing calculateRemainingTime_def Let_def)

lemma login_missing:
  "la ident = None \<Longrightarrow>
   login chk la ident pw now later =
     (case chk ident pw of
        Inl err \<Rightarrow> (Raised err, la(ident \<mapsto> \<lparr>count_attempt = 1, timestamp = now\<rparr>))
      | Inr None \<Rightarrow> (WrongCredentials, la(ident \<mapsto> \<lparr>count_attempt = 2, timestamp = later\<rparr>))
      | Inr (Some x) \<Rightarrow> (LoggedIn x, la))"
  by (auto simp add: login_def initAttempt_missing Let_def split: sum.splits option.splits)

lemma login_allowed_upto_5:
  "la ident = Some r \<Longrightarrow> count_attempt r \<le> 5 \<Longrightarrow>
   fst (login chk la ident pw now later) \<noteq> TooManyAttempts n"
  by (simp add: login_existing split: sum.splits option.splits)

lemma login_locked_above_5:
  "la ident = Some r \<Longrightarrow> 5 < count_attempt r \<Longrightarrow>
   login chk la ident pw now later =
     (TooManyAttempts (max 0 (1800 - (now - timestamp r) div 1000)), la)"
  by (simp add: login_existing)


text \<open>
  C1.  The claim: an attempt is rejected as locked exactly when the count exceeds 5 and
  1800 seconds have not yet passed since the last failure; once they have passed the
  attempt is no longer rejected.  The code rejects on the count alone.  For the record
  \<open>{count: 6, timestamp: 0}\<close> and a clock of 3600000 ms (one hour later), \<open>login\<close>
  still answers \<open>TooManyAttempts\<close>, with 0 seconds remaining, whatever the credential
  check would have said, and leaves the record in place.
\<close>

theorem login_still_locked_after_window:
  "login chk locked_attempts locked_identity pw 3600000 later =
     (TooManyAttempts 0, locked_attempts)"
  by (simp add: login_existing [where r = "\<lparr>count_attempt = 6, timestamp = 0\<rparr>"]
        locked_attempts_def)


text \<open>
  C2 (amended).  Whenever an attempt is rejected as locked, the reported seconds equal
  \<open>max 0 (1800 - s)\<close>, where \<open>s\<close> is the number of whole seconds between the record's
  timestamp and the clock.  The value is never negative, never grows when the clock
  advances, is strictly smaller after any further full second as long as it was still
  positive, and is exactly 0 from 1800 seconds after the timestamp on.
\<close>

theorem locked_remaining_seconds:
  assumes "la ident = Some r" and "5 < count_attempt r"
  shows "\<exists>rem rem'.
           fst (login chk la ident pw now later) = TooManyAttempts rem
         \<and> fst (login chk la ident pw now' later') = TooManyAttempts rem'
         \<and> rem = max 0 (1800 - \<lfloor>real_of_int (now - timestamp r) / 1000\<rfloor>)
         \<and> rem' = max 0 (1800 - \<lfloor>real_of_int (now' - timestamp r) / 1000\<rfloor>)
         \<and> 0 \<le> rem
         \<and> (now \<le> now' \<longrightarrow> rem' \<le> rem)
         \<and> (now + 1000 \<le> now' \<and> 0 < rem \<longrightarrow> rem' < rem)
         \<and> (timestamp r + 1800 * 1000 \<le> now \<longrightarrow> rem = 0)"
proof -
  let ?f = "\<lambda>t. max 0 (1800 - (t - timestamp r) div 1000)"
  have a: "fst (login chk la ident pw now later) = TooManyAttempts (?f now)"
    using assms by (simp add: login_locked_above_5)
  have b: "fst (login chk la ident pw now' later') = TooManyAttempts (?f now')"
    using assms by (simp add: login_locked_above_5)
  have c: "?f now = max 0 (1800 - \<lfloor>real_of_int (now - timestamp r) / 1000\<rfloor>)"
    by (simp only: elapsed_seconds_floor)
  have c': "?f now' = max 0 (1800 - \<lfloor>real_of_int (now' - timestamp r) / 1000\<rfloor>)"
    by (simp only: elapsed_seconds_floor)
  have mono: "now \<le> now' \<longrightarrow> ?f now' \<le> ?f now"
  proof
    assume "now \<le> now'"
    then have "(now - timestamp r) div 1000 \<le> (now' - timestamp r) div 1000"
      by (intro zdiv_mono1) simp_all
    then show "?f now' \<le> ?f now" by simp
  qed
  have strict: "now + 1000 \<le> now' \<and> 0 < ?f now \<longrightarrow> ?f now' < ?f now"
  proof
    assume h: "now + 1000 \<le> now' \<and> 0 < ?f now"
    then have "(now - timestamp r + 1000) div 1000 \<le> (now' - timestamp r) div 1000"
      by (intro zdiv_mono1) simp_all
    then have "(now - timestamp r) div 1000 + 1 \<le> (now' - timestamp r) div 1000"
      by simp
    with h show "?f now' < ?f now" by simp
  qed
  have zero: "timestamp r + 1800 * 1000 \<le> now \<longrightarrow> ?f now = 0"
  proof
    assume "timestamp r + 1800 * 1000 \<le> now"
    then have "(1800 * 1000) div 1000 \<le> (now - timestamp r) div 1000"
      by (intro zdiv_mono1) simp_all
    then show "?f now = 0" by simp
  qed
  show ?thesis
    using a b c c' mono strict zero by (intro exI [of _ "?f now"] exI [of _ "?f now'"]) simp
qed

text \<open>
  The theorem at the record \<open>{count: 6, timestamp: 0}\<close>, 600 seconds, 601 seconds
  and 1800 seconds after the failure: 1200, 1199 and 0 seconds remain.
\<close>

theorem locked_remaining_seconds_witness:
  "fst (login reject_all locked_attempts locked_identity ''pw'' 600000 600000)
     = TooManyAttempts 1200
   \<and> fst (login reject_all locked_attempts locked_identity ''pw'' 601000 601000)
     = TooManyAttempts 1199
   \<and> fst (login reject_all locked_attempts locked_identity ''pw'' 1800000 1800000)
     = TooManyAttempts 0"
proof -
  have r: "locked_attempts locked_identity = Some \<lparr>count_attempt = 6, timestamp = 0\<rparr>"
    by (simp add: locked_attempts_def)
  have c: "5 < count_attempt \<lparr>count_attempt = 6, timestamp = 0\<rparr>"
    by simp
  have one: "fst (login reject_all locked_attempts locked_identity ''pw'' 600000 600000)
               = TooManyAttempts 1200
           \<and> fst (login reject_all locked_attempts locked_identity ''pw'' 601000 601000)
               = TooManyAttempts 1199"
    using locked_remaining_seconds
         [where la = locked_attempts and ident = locked_identity
            and r = "\<lparr>count_attempt = 6, timestamp = 0\<rparr>" and chk = reject_all
            and pw = "''pw''" and now = 600000 and later = 600000
            and now' = 601000 and later' = 601000, OF r c]
    by auto
  have two: "fst (login reject_all locked_attempts locked_identity ''pw'' 1800000 1800000)
               = TooManyAttempts 0"
    using locked_remaining_seconds
         [where la = locked_attempts and ident = locked_identity
            and r = "\<lparr>count_attempt = 6, timestamp = 0\<rparr>" and chk = reject_all
            and pw = "''pw''" and now = 1800000 and later = 1800000
            and now' = 1800000 and later' = 1800000, OF r c]
    by auto
  from one two show ?thesis by simp
qed

text \<open>
  The claim as written asks for a strict decrease over elapsed time.  Half a second
  apart, the two rejections report the same 1800 seconds.
\<close>

theorem remaining_not_strictly_decreasing:
  "calculateRemainingTime locked_attempts locked_identity 0 = Inr 1800
   \<and> calculateRemainingTime locked_attempts locked_identity 500 = Inr 1800
   \<and> fst (login reject_all locked_attempts locked_identity ''pw'' 0 0) = TooManyAttempts 1800
   \<and> fst (login reject_all locked_attempts locked_identity ''pw'' 500 500) = TooManyAttempts 1800"
  by (simp add: calculateRemainingTime_def locked_attempts_def
        login_existing [where r = "\<lparr>count_attempt = 6, timestamp = 0\<rparr>"])


text \<open>
  C3.  A successful login for an identity removes its record from the throttle state and
  changes nothing else.  The next attempt for that identity then runs as on the initial,
  empty state: the record it starts from is the fresh one with count 1, it is never
  rejected as locked, it gives the same answer as a first-ever attempt and leaves the
  same record for the identity.
\<close>

theorem success_resets_record:
  assumes "fst (login chk la ident pw now later) = LoggedIn x"
  shows "snd (login chk la ident pw now later) = la(ident := None)
       \<and> initAttempt (snd (login chk la ident pw now later)) ident now' ident
           = Some \<lparr>count_attempt = 1, timestamp = now'\<rparr>
       \<and> fst (login chk' (snd (login chk la ident pw now later)) ident pw' now' later')
           = fst (login chk' Map.empty ident pw' now' later')
       \<and> snd (login chk' (snd (login chk la ident pw now later)) ident pw' now' later') ident
           = snd (login chk' Map.empty ident pw' now' later') ident
       \<and> fst (login chk' (snd (login chk la ident pw now later)) ident pw' now' later')
           \<noteq> TooManyAttempts n"
proof -
  have s: "snd (login chk la ident pw now later) = la(ident := None)"
  proof (cases "la ident")
    case None
    then have "la(ident := None) = la" by (simp add: fun_upd_idem)
    with None assms show ?thesis
      by (auto simp add: login_missing split: sum.splits option.splits)
  next
    case (Some r)
    with assms show ?thesis
      by (auto simp add: login_existing split: sum.splits option.splits if_splits)
  qed
  have m: "(la(ident := None)) ident = None" by simp
  have e: "(Map.empty :: loginAttempts) ident = None" by simp
  show ?thesis
    unfolding s
    by (simp add: login_missing [where la = "la(ident := None)", OF m]
          login_missing [where la = Map.empty, OF e]
          initAttempt_missing [where la = "la(ident := None)", OF m]
          split: sum.splits option.splits)
qed

text \<open>
  The theorem at an identity with four earlier failures: the login succeeds, the record
  is gone, and a following wrong password leaves count 2, as on the empty state.
\<close>

theorem success_resets_record_witness:
  "fst (login accept_all [''bob@example.com'' \<mapsto> \<lparr>count_attempt = 4, timestamp = 7\<rparr>]
          ''bob@example.com'' ''pw'' 100 200) = LoggedIn ()
   \<and> snd (login accept_all [''bob@example.com'' \<mapsto> \<lparr>count_attempt = 4, timestamp = 7\<rparr>]
          ''bob@example.com'' ''pw'' 100 200) ''bob@example.com'' = None
   \<and> snd (login reject_all
          (snd (login accept_all [''bob@example.com'' \<mapsto> \<lparr>count_attempt = 4, timestamp = 7\<rparr>]
             ''bob@example.com'' ''pw'' 100 200))
          ''bob@example.com'' ''pw'' 300 400) ''bob@example.com''
       = Some \<lparr>count_attempt = 2, timestamp = 400\<rparr>"
proof -
  let ?la = "[''bob@example.com'' \<mapsto> \<lparr>count_attempt = 4, timestamp = 7\<rparr>] :: loginAttempts"
  have ok: "fst (login accept_all ?la ''bob@example.com'' ''pw'' 100 200) = LoggedIn ()"
    by (simp add: login_existing [where r = "\<lparr>count_attempt = 4, timestamp = 7\<rparr>"]
          accept_all_def)
  have e: "(Map.empty :: loginAttempts) ''bob@example.com'' = None" by simp
  from success_resets_record [OF ok, of 300 reject_all "''pw''" 400 0]
  show ?thesis
    using ok by (simp add: login_missing [where la = Map.empty, OF e] reject_all_def)
qed


text \<open>
  C10.  An attempt that is rejected as locked leaves the whole throttle state as it was:
  neither the count nor the timestamp of the identity's record changes, so repeating
  the attempt does not move the window.  An existing record is replaced by a different
  one only when the credential check was reached and failed.
\<close>

theorem locked_attempt_changes_nothing:
  "(fst (login chk la ident pw now later) = TooManyAttempts n
      \<longrightarrow> snd (login chk la ident pw now later) = la)
   \<and> (la ident = Some r \<and> snd (login chk la ident pw now later) ident = Some r' \<and> r' \<noteq> r
      \<longrightarrow> fst (login chk la ident pw now later) = WrongCredentials
          \<and> chk ident pw = Inr None
          \<and> r' = \<lparr>count_attempt = count_attempt r + 1, timestamp = later\<rparr>)"
proof (cases "la ident")
  case None
  then show ?thesis
    by (auto simp add: login_missing split: sum.splits option.splits)
next
  case (Some r0)
  then show ?thesis
    by (auto simp add: login_existing split: sum.splits option.splits if_splits)
qed

text \<open>
  The theorem at the locked record: two rejected attempts in a row, ten minutes apart,
  and the record still reads \<open>{count: 6, timestamp: 0}\<close>.
\<close>

theorem locked_attempt_changes_nothing_witness:
  "fst (login reject_all locked_attempts locked_identity ''pw'' 60000 60001)
     = TooManyAttempts 1740
   \<and> snd (login reject_all locked_attempts locked_identity ''pw'' 60000 60001)
     = locked_attempts
   \<and> snd (login reject_all
            (snd (login reject_all locked_attempts locked_identity ''pw'' 60000 60001))
            locked_identity ''pw'' 660000 660001) locked_identity
     = Some \<lparr>count_attempt = 6, timestamp = 0\<rparr>"
proof -
  have r: "locked_attempts locked_identity = Some \<lparr>count_attempt = 6, timestamp = 0\<rparr>"
    by (simp add: locked_attempts_def)
  have f1: "fst (login reject_all locked_attempts locked_identity ''pw'' 60000 60001)
              = TooManyAttempts 1740"
    by (simp add: login_existing [where la = locked_attempts, OF r])
  have f2: "fst (login reject_all locked_attempts locked_identity ''pw'' 660000 660001)
              = TooManyAttempts 1140"
    by (simp add: login_existing [where la = locked_attempts, OF r])
  have s1: "snd (login reject_all locked_attempts locked_identity ''pw'' 60000 60001)
              = locked_attempts"
    using locked_attempt_changes_nothing
            [of reject_all locked_attempts locked_identity "''pw''" 60000 60001 1740] f1
    by blast
  have s2: "snd (login reject_all locked_attempts locked_identity ''pw'' 660000 660001)
              = locked_attempts"
    using locked_attempt_changes_nothing
            [of reject_all locked_attempts locked_identity "''pw''" 660000 660001 1140] f2
    by blast
  show ?thesis
    using f1 s1 s2 r by simp
qed


section \<open>Facts about the query engine\<close>

lemma includes_str_sublist: "includes_str s v \<longleftrightarrow> sublist v s"
  by (induction s) (simp_all add: sublist_Cons_right)

lemma user_get_known: "f \<in> set user_fields \<Longrightarrow> \<exists>s. user_get u f = Some s"
  by (auto simp add: user_fields_def user_get_def)

lemma user_get_unknown: "f \<notin> set user_fields \<Longrightarrow> user_get u f = None"
  by (simp add: user_fields_def user_get_def)

lemma filter_includes_known:
  "f \<in> set user_fields \<Longrightarrow>
   filter_includes f v us =
     Inr (filter (\<lambda>u. case user_get u f of None \<Rightarrow> False | Some s \<Rightarrow> sublist v s) us)"
proof (induction us)
  case Nil
  then show ?case by simp
next
  case (Cons u us)
  from user_get_known [OF Cons.prems, of u] obtain s where "user_get u f = Some s" ..
  with Cons show ?case by (simp add: includes_str_sublist)
qed

lemma filter_includes_unknown:
  "f \<notin> set user_fields \<Longrightarrow> us \<noteq> [] \<Longrightarrow> filter_includes f v us = Inl TypeError"
  by (cases us) (simp_all add: user_get_unknown)

lemma collect_from:
  "0 \<le> i \<Longrightarrow>
   collect fu i e acc = Inr (acc @ map summary_of (take (nat (e - i)) (drop (nat i) fu)))"
proof (induction fu i e acc rule: collect.induct)
  case (1 fu i e acc)
  show ?case
  proof (cases "i < e \<and> i < int (length fu)")
    case True
    with "1.prems" have n: "nat i < length fu" by (simp add: nat_less_iff)
    from True have t: "nat (e - i) = Suc (nat (e - (i + 1)))" by linarith
    from "1.prems" have d: "nat (i + 1) = Suc (nat i)" by linarith
    have "take (nat (e - i)) (drop (nat i) fu)
            = fu ! nat i # take (nat (e - (i + 1))) (drop (nat (i + 1)) fu)"
      unfolding t d using Cons_nth_drop_Suc [OF n, symmetric] by simp
    moreover have "collect fu (i + 1) e (acc @ [summary_of (fu ! nat i)])
            = Inr ((acc @ [summary_of (fu ! nat i)])
                   @ map summary_of (take (nat (e - (i + 1))) (drop (nat (i + 1)) fu)))"
      using "1.IH" True "1.prems" by simp
    ultimately show ?thesis
      using True "1.prems" by (subst collect.simps) simp
  next
    case False
    then have "take (nat (e - i)) (drop (nat i) fu) = []"
      using "1.prems" by auto
    with False show ?thesis by (subst collect.simps) auto
  qed
qed

lemma collect_items:
  "collect fu i e acc = Inr items \<Longrightarrow> set items \<subseteq> set acc \<union> summary_of ` set fu"
proof (induction fu i e acc rule: collect.induct)
  case (1 fu i e acc)
  show ?case
  proof (cases "i < e \<and> i < int (length fu)")
    case True
    show ?thesis
    proof (cases "i < 0")
      case True
      with \<open>i < e \<and> i < int (length fu)\<close> "1.prems" show ?thesis
        by (subst (asm) collect.simps) simp
    next
      case False
      with True "1.prems"
      have c: "collect fu (i + 1) e (acc @ [summary_of (fu ! nat i)]) = Inr items"
        by (subst (asm) collect.simps) simp
      from False True have "nat i < length fu" by (simp add: nat_less_iff)
      then have "fu ! nat i \<in> set fu" by (rule nth_mem)
      with "1.IH" [OF True False c] show ?thesis by auto
    qed
  next
    case False
    with "1.prems" show ?thesis by (subst (asm) collect.simps) auto
  qed
qed

lemma insert_sorted_total:
  assumes "\<And>a b. \<exists>n. cmp a b = Inr n"
  shows "\<exists>r. insert_sorted cmp x ys = Inr r"
proof (induction ys)
  case Nil
  show ?case by simp
next
  case (Cons y ys)
  from assms obtain n where "cmp x y = Inr n" by blast
  with Cons show ?case by auto
qed

lemma insert_sorted_mset:
  "insert_sorted cmp x ys = Inr r \<Longrightarrow> mset r = add_mset x (mset ys)"
  by (induction ys arbitrary: r) (auto split: sum.splits if_splits)

lemma insert_sorted_stable:
  assumes eq: "\<And>a b n. cmp a b = Inr n \<Longrightarrow> key a = key b \<Longrightarrow> n \<le> 0"
  shows "insert_sorted cmp x ys = Inr r \<Longrightarrow>
         filter (\<lambda>y. key y = k) r = filter (\<lambda>y. key y = k) (x # ys)"
proof (induction ys arbitrary: r)
  case Nil
  then show ?case by auto
next
  case (Cons y ys)
  from Cons.prems obtain n where n: "cmp x y = Inr n"
    by (auto split: sum.splits)
  show ?case
  proof (cases "n \<le> 0")
    case True
    with n Cons.prems show ?thesis by auto
  next
    case False
    with n Cons.prems obtain r' where r': "insert_sorted cmp x ys = Inr r'" "r = y # r'"
      by (auto split: sum.splits)
    from False n eq have "key x \<noteq> key y" by blast
    with Cons.IH [OF r'(1)] r'(2) show ?thesis by auto
  qed
qed

lemma insert_sorted_sorted:
  assumes le: "\<And>a b n. cmp a b = Inr n \<Longrightarrow> (n \<le> 0) = le a b"
    and tot: "\<And>a b. le a b \<or> le b a"
    and tr: "\<And>a b c. le a b \<Longrightarrow> le b c \<Longrightarrow> le a c"
  shows "sorted_wrt le ys \<Longrightarrow> insert_sorted cmp x ys = Inr r \<Longrightarrow> sorted_wrt le r"
proof (induction ys arbitrary: r)
  case Nil
  then show ?case by auto
next
  case (Cons y ys)
  from Cons.prems obtain n where n: "cmp x y = Inr n"
    by (auto split: sum.splits)
  show ?case
  proof (cases "n \<le> 0")
    case True
    with n le have xy: "le x y" by blast
    from True n Cons.prems have r: "r = x # y # ys" by auto
    from Cons.prems(1) have "\<forall>z \<in> set ys. le y z" by simp
    with xy tr have "\<forall>z \<in> set ys. le x z" by blast
    with xy Cons.prems(1) r show ?thesis by simp
  next
    case False
    with n Cons.prems obtain r' where r': "insert_sorted cmp x ys = Inr r'" "r = y # r'"
      by (auto split: sum.splits)
    from False n le have "\<not> le x y" by blast
    with tot have yx: "le y x" by blast
    from Cons.prems(1) have s: "sorted_wrt le ys" and ys: "\<forall>z \<in> set ys. le y z" by simp_all
    from insert_sorted_mset [OF r'(1)] have "set r' = insert x (set ys)"
      by (metis set_mset_add_mset_insert set_mset_mset)
    with yx ys have "\<forall>z \<in> set r'. le y z" by simp
    with Cons.IH [OF s r'(1)] r'(2) show ?thesis by simp
  qed
qed

lemma array_sort_total:
  assumes "\<And>a b. \<exists>n. cmp a b = Inr n"
  shows "\<exists>r. array_sort cmp xs = Inr r"
proof (induction xs)
  case Nil
  show ?case by simp
next
  case (Cons x xs)
  then obtain r where r: "array_sort cmp xs = Inr r" ..
  from insert_sorted_total [of cmp x r] assms obtain r' where "insert_sorted cmp x r = Inr r'"
    by blast
  with r show ?case by simp
qed

lemma array_sort_mset: "array_sort cmp xs = Inr r \<Longrightarrow> mset r = mset xs"
proof (induction xs arbitrary: r)
  case Nil
  then show ?case by simp
next
  case (Cons x xs)
  then obtain r' where r': "array_sort cmp xs = Inr r'" "insert_sorted cmp x r' = Inr r"
    by (auto split: sum.splits)
  from insert_sorted_mset [OF r'(2)] Cons.IH [OF r'(1)] show ?case by simp
qed

lemma array_sort_stable:
  assumes eq: "\<And>a b n. cmp a b = Inr n \<Longrightarrow> key a = key b \<Longrightarrow> n \<le> 0"
  shows "array_sort cmp xs = Inr r \<Longrightarrow>
         filter (\<lambda>y. key y = k) r = filter (\<lambda>y. key y = k) xs"
proof (induction xs arbitrary: r)
  case Nil
  then show ?case by simp
next
  case (Cons x xs)
  then obtain r' where r': "array_sort cmp xs = Inr r'" "insert_sorted cmp x r' = Inr r"
    by (auto split: sum.splits)
  have "filter (\<lambda>y. key y = k) r = filter (\<lambda>y. key y = k) (x # r')"
  proof (rule insert_sorted_stable [where cmp = cmp])
    show "n \<le> 0" if "cmp a b = Inr n" "key a = key b" for a b n
      using that by (rule eq)
    show "insert_sorted cmp x r' = Inr r" by (rule r'(2))
  qed
  with Cons.IH [OF r'(1)] show ?case by simp
qed

lemma array_sort_sorted:
  assumes le: "\<And>a b n. cmp a b = Inr n \<Longrightarrow> (n \<le> 0) = le a b"
    and tot: "\<And>a b. le a b \<or> le b a"
    and tr: "\<And>a b c. le a b \<Longrightarrow> le b c \<Longrightarrow> le a c"
  shows "array_sort cmp xs = Inr r \<Longrightarrow> sorted_wrt le r"
proof (induction xs arbitrary: r)
  case Nil
  then show ?case by simp
next
  case (Cons x xs)
  then obtain r' where r': "array_sort cmp xs = Inr r'" "insert_sorted cmp x r' = Inr r"
    by (auto split: sum.splits)
  from Cons.IH [OF r'(1)] have s: "sorted_wrt le r'" .
  show ?case
  proof (rule insert_sorted_sorted [where cmp = cmp and le = le and ys = r' and x = x])
    show "(n \<le> 0) = le a b" if "cmp a b = Inr n" for a b n
      using that by (rule le)
    show "le a b \<or> le b a" for a b
      by (rule tot)
    show "le a c" if "le a b" "le b c" for a b c
      using that by (rule tr)
    show "sorted_wrt le r'" by (rule s)
    show "insert_sorted cmp x r' = Inr r" by (rule r'(2))
  qed
qed

lemma compare_users_key:
  "compare_users (if field = ''name'' \<or> field = ''email'' then field else ''email'') ord a b =
     Inr (if spec_sort_key field a < spec_sort_key field b then - 1 * ord
          else if spec_sort_key field b < spec_sort_key field a then 1 * ord
          else 0)"
  by (simp add: compare_users_def user_get_def spec_sort_key_def Let_def)

lemma sort_users_wellformed:
  assumes "map (\<lambda>part. toLowerCase (trim part)) (split_str CHR '':'' s) = [field, ord]"
  shows "sort_users (Some s) us =
           array_sort (compare_users (if field = ''name'' \<or> field = ''email'' then field else ''email'')
                         (if ord = ''desc'' then - 1 else 1)) us"
proof -
  from assms have "s \<noteq> []" by auto
  with assms show ?thesis by (simp add: sort_users_def Let_def)
qed

lemma sort_users_malformed:
  "length (split_str CHR '':'' s) \<noteq> 2 \<Longrightarrow> sort_users (Some s) us = Inr us"
  by (cases "split_str CHR '':'' s" rule: list.exhaust [case_product list.exhaust])
     (auto simp add: sort_users_def Let_def split: list.splits)

lemma sort_users_total: "\<exists>S. sort_users sp us = Inr S \<and> mset S = mset us"
proof (cases sp)
  case None
  then show ?thesis by (simp add: sort_users_def)
next
  case (Some s)
  show ?thesis
  proof (cases "length (split_str CHR '':'' s) = 2")
    case False
    with Some show ?thesis by (simp add: sort_users_malformed)
  next
    case True
    then obtain p q where pq: "split_str CHR '':'' s = [p, q]"
      by (auto simp add: length_Suc_conv numeral_2_eq_2)
    define field where "field = toLowerCase (trim p)"
    define ord where "ord = toLowerCase (trim q)"
    let ?cmp = "compare_users (if field = ''name'' \<or> field = ''email'' then field else ''email'')
                  (if ord = ''desc'' then - 1 else 1)"
    from pq have "map (\<lambda>part. toLowerCase (trim part)) (split_str CHR '':'' s) = [field, ord]"
      by (simp add: field_def ord_def)
    then have e: "sort_users (Some s) us = array_sort ?cmp us"
      by (rule sort_users_wellformed)
    have "\<exists>S. array_sort ?cmp us = Inr S"
      by (rule array_sort_total) (simp add: compare_users_key)
    then obtain S where S: "array_sort ?cmp us = Inr S" ..
    from array_sort_mset [OF S] S e Some show ?thesis by simp
  qed
qed

lemma search_users_none: "search_users None users = Inr (Some users)"
  by (simp add: search_users_def)

lemma search_users_malformed:
  "length (split_str CHR '':'' s) \<noteq> 2 \<Longrightarrow> search_users (Some s) users = Inr (Some users)"
  by (cases "split_str CHR '':'' s" rule: list.exhaust [case_product list.exhaust])
     (auto simp add: search_users_def split: list.splits)

lemma wellformed_nonempty: "map f (split_str CHR '':'' s) = [a, b] \<Longrightarrow> s \<noteq> []"
  by auto

lemma search_users_known:
  assumes "map trim (split_str CHR '':'' s) = [field, val]" and "field \<in> set user_fields"
  shows "search_users (Some s) users =
           (if filter (\<lambda>u. case user_get u field of None \<Rightarrow> False | Some str \<Rightarrow> sublist val str) users = []
            then Inr None
            else Inr (Some (filter (\<lambda>u. case user_get u field of None \<Rightarrow> False
                                         | Some str \<Rightarrow> sublist val str) users)))"
  using assms wellformed_nonempty [OF assms(1)]
  by (simp add: search_users_def filter_includes_known)

lemma search_users_unknown:
  assumes "map trim (split_str CHR '':'' s) = [field, val]" and "field \<notin> set user_fields"
  shows "search_users (Some s) users = (if users = [] then Inr None else Inl TypeError)"
  using assms wellformed_nonempty [OF assms(1)]
  by (simp add: search_users_def filter_includes_unknown)

lemma filter_includes_subset:
  "filter_includes f v us = Inr kept \<Longrightarrow> set kept \<subseteq> set us"
  by (induction us arbitrary: kept) (auto split: option.splits sum.splits if_splits)

lemma search_users_subset:
  "search_users search users = Inr (Some fs) \<Longrightarrow> set fs \<subseteq> set users"
  by (auto simp add: search_users_def split: option.splits if_splits list.splits sum.splits
        dest: filter_includes_subset)

lemma getUsers_paged:
  assumes se: "search_users search users = Inr (Some fs)"
    and so: "sort_users sp fs = Inr S"
    and psize: "psize = (case limit of None \<Rightarrow> int (length fs)
                     | Some l \<Rightarrow> if l = 0 then int (length fs) else l)"
    and start: "0 \<le> (page - 1) * psize"
  shows "getUsers page limit search sp users =
           Some \<lparr>page_number = page, page_size = psize, count_result = int (length fs),
                 total_pages = ceil_div (int (length fs)) psize,
                 has_previous_page = (1 < page),
                 has_next_page = js_less page (ceil_div (int (length fs)) psize),
                 data = map summary_of (take (nat psize) (drop (nat ((page - 1) * psize)) S))\<rparr>"
proof -
  have d: "page * psize - (page - 1) * psize = psize" by (simp add: algebra_simps)
  have "collect S ((page - 1) * psize) (page * psize) [] =
          Inr ([] @ map summary_of (take (nat psize) (drop (nat ((page - 1) * psize)) S)))"
    using collect_from [OF start, of S "page * psize" "[]"] by (simp only: d)
  then show ?thesis
    using se so psize by (simp add: getUsers_def getUsers_try_def Let_def)
qed

lemma ceil_div_ceiling:
  "b \<noteq> 0 \<Longrightarrow> ceil_div a b = Num \<lceil>real_of_int a / real_of_int b\<rceil>"
  by (simp add: ceil_div_def ceiling_divide_eq_div)

lemma ceiling_pages_cover:
  assumes "1 \<le> l" and "\<lceil>real_of_int n / real_of_int l\<rceil> < page"
  shows "n \<le> (page - 1) * l"
proof -
  let ?q = "\<lceil>real_of_int n / real_of_int l\<rceil>"
  have q: "real_of_int n / real_of_int l \<le> real_of_int ?q" by (rule le_of_int_ceiling)
  from assms(1) have lpos: "0 < real_of_int l" by simp
  from q have "real_of_int n \<le> real_of_int ?q * real_of_int l"
    by (simp only: pos_divide_le_eq [OF lpos])
  then have "real_of_int n \<le> real_of_int (?q * l)" by simp
  then have "n \<le> ?q * l" by (simp only: of_int_le_iff)
  also from assms have "?q * l \<le> (page - 1) * l"
    by (intro mult_right_mono) simp_all
  finally show ?thesis .
qed

text \<open>
  C4.  For a search string that splits at \<open>:\<close> into exactly two parts, trimmed to
  \<open>field\<close> and \<open>val\<close>, with \<open>field\<close> a string attribute of the user: the users kept
  are exactly those whose stored value of that attribute contains \<open>val\<close> as a
  contiguous substring, compared character by character (so with case).  If none is
  kept the answer is \<^verbatim>\<open>null\<close>, not a page; otherwise the answer is the one the query
  without the search gives on the kept users, in their order.
\<close>

theorem search_keeps_matching_records:
  assumes "map trim (split_str CHR '':'' s) = [field, val]" and "field \<in> set user_fields"
  shows "getUsers page limit (Some s) sp users =
           (if filter (\<lambda>u. case user_get u field of None \<Rightarrow> False | Some str \<Rightarrow> sublist val str) users = []
            then None
            else getUsers page limit None sp
                   (filter (\<lambda>u. case user_get u field of None \<Rightarrow> False
                                | Some str \<Rightarrow> sublist val str) users))"
  by (simp add: getUsers_def getUsers_try_def search_users_known [OF assms] search_users_none)

lemma users_eval:
  "user_get john ''name'' = Some ''John''" "user_get bob ''name'' = Some ''Bob''"
  "user_get joan ''name'' = Some ''Joan''"
  by (simp_all add: user_get_def john_def bob_def joan_def mk_user_def)

text \<open>
  The theorem at the search \<open>name:Jo\<close> over John, Bob, Joan: exactly John and Joan,
  count 2.  With \<open>name:jo\<close> nothing matches and the answer is \<^verbatim>\<open>null\<close>.
\<close>

theorem search_keeps_matching_records_witness:
  "getUsers 1 None (Some ''name:Jo'') None [john, bob, joan] =
     Some \<lparr>page_number = 1, page_size = 2, count_result = 2, total_pages = Num 1,
           has_previous_page = False, has_next_page = False,
           data = [summary_of john, summary_of joan]\<rparr>
   \<and> getUsers 1 None (Some ''name:jo'') None [john, bob, joan] = None"
proof -
  have k: "''name'' \<in> set user_fields" by (simp add: user_fields_def)
  have w1: "map trim (split_str CHR '':'' ''name:Jo'') = [''name'', ''Jo'']"
    by (simp add: trim_def is_space_def)
  have w2: "map trim (split_str CHR '':'' ''name:jo'') = [''name'', ''jo'']"
    by (simp add: trim_def is_space_def)
  have m1: "filter (\<lambda>u. case user_get u ''name'' of None \<Rightarrow> False | Some str \<Rightarrow> sublist ''Jo'' str)
              [john, bob, joan] = [john, joan]"
    by (simp add: users_eval sublist_code(3))
  have m2: "filter (\<lambda>u. case user_get u ''name'' of None \<Rightarrow> False | Some str \<Rightarrow> sublist ''jo'' str)
              [john, bob, joan] = []"
    by (simp add: users_eval sublist_code(3))
  have g: "getUsers 1 None None None [john, joan] =
     Some \<lparr>page_number = 1, page_size = 2, count_result = 2, total_pages = Num 1,
           has_previous_page = False, has_next_page = False,
           data = [summary_of john, summary_of joan]\<rparr>"
    using getUsers_paged [where search = None and users = "[john, joan]" and fs = "[john, joan]"
            and sp = None and S = "[john, joan]" and limit = None and psize = 2 and page = 1]
    by (simp add: search_users_none sort_users_def ceil_div_def)
  from search_keeps_matching_records [OF w1 k, of 1 None None "[john, bob, joan]"]
       search_keeps_matching_records [OF w2 k, of 1 None None "[john, bob, joan]"]
  show ?thesis
    by (simp only: m1 m2 g) simp
qed

text \<open>
  C5.  For a sort string that splits at \<open>:\<close> into exactly two parts, trimmed and
  lower-cased to \<open>field\<close> and \<open>ord\<close>: sorting succeeds and rearranges the users; the
  key is the lower-cased name when \<open>field\<close> is \<open>name\<close> and the lower-cased e-mail
  address for every other field; keys are compared lexicographically; the result is
  descending exactly when \<open>ord\<close> is \<open>desc\<close> and ascending for every other value, the
  empty one included; users with equal keys keep their relative order.  The first page
  without a page size lists the users in that order.
\<close>

theorem sort_by_allowed_key_stable:
  assumes "map (\<lambda>part. toLowerCase (trim part)) (split_str CHR '':'' s) = [field, ord]"
  shows "\<exists>S. sort_users (Some s) us = Inr S
           \<and> mset S = mset us
           \<and> (ord \<noteq> ''desc'' \<longrightarrow>
                sorted_wrt (\<lambda>a b. spec_sort_key field a \<le> spec_sort_key field b) S)
           \<and> (ord = ''desc'' \<longrightarrow>
                sorted_wrt (\<lambda>a b. spec_sort_key field b \<le> spec_sort_key field a) S)
           \<and> (\<forall>k. filter (\<lambda>u. spec_sort_key field u = k) S
                     = filter (\<lambda>u. spec_sort_key field u = k) us)
           \<and> (\<exists>r. getUsers 1 None None (Some s) us = Some r \<and> data r = map summary_of S)"
proof -
  let ?sortBy = "if field = ''name'' \<or> field = ''email'' then field else ''email''"
  let ?ord = "if ord = ''desc'' then - 1 else 1 :: int"
  let ?cmp = "compare_users ?sortBy ?ord"
  let ?key = "spec_sort_key field"
  have e: "sort_users (Some s) us = array_sort ?cmp us"
    using assms by (rule sort_users_wellformed)
  from sort_users_total [of "Some s" us] obtain S
    where S: "sort_users (Some s) us = Inr S" and m: "mset S = mset us" by blast
  from S e have a: "array_sort ?cmp us = Inr S" by simp
  have asc: "sorted_wrt (\<lambda>a b. ?key a \<le> ?key b) S" if "ord \<noteq> ''desc''"
  proof (rule array_sort_sorted [where cmp = ?cmp and xs = us])
    show "(n \<le> 0) = (?key a \<le> ?key b)" if "?cmp a b = Inr n" for a b n
      using that \<open>ord \<noteq> ''desc''\<close> by (auto simp add: compare_users_key split: if_splits)
    show "?key a \<le> ?key b \<or> ?key b \<le> ?key a" for a b
      by (rule linear)
    show "?key a \<le> ?key c" if "?key a \<le> ?key b" "?key b \<le> ?key c" for a b c
      using that by (rule order_trans)
    show "array_sort ?cmp us = Inr S" by (rule a)
  qed
  have desc: "sorted_wrt (\<lambda>a b. ?key b \<le> ?key a) S" if "ord = ''desc''"
  proof (rule array_sort_sorted [where cmp = ?cmp and xs = us])
    show "(n \<le> 0) = (?key b \<le> ?key a)" if "?cmp a b = Inr n" for a b n
      using that \<open>ord = ''desc''\<close> by (auto simp add: compare_users_key split: if_splits)
    show "?key b \<le> ?key a \<or> ?key a \<le> ?key b" for a b
      by (rule linear)
    show "?key c \<le> ?key a" if "?key b \<le> ?key a" "?key c \<le> ?key b" for a b c
      using that(2) that(1) by (rule order_trans)
    show "array_sort ?cmp us = Inr S" by (rule a)
  qed
  have stable: "filter (\<lambda>u. ?key u = k) S = filter (\<lambda>u. ?key u = k) us" for k
  proof (rule array_sort_stable [where cmp = ?cmp])
    show "n \<le> 0" if "?cmp a b = Inr n" "?key a = ?key b" for a b n
      using that by (simp add: compare_users_key)
    show "array_sort ?cmp us = Inr S" by (rule a)
  qed
  from m have len: "length S = length us" by (rule mset_eq_length)
  have "getUsers 1 None None (Some s) us =
          Some \<lparr>page_number = 1, page_size = int (length us), count_result = int (length us),
                total_pages = ceil_div (int (length us)) (int (length us)),
                has_previous_page = (1 < (1::int)),
                has_next_page = js_less 1 (ceil_div (int (length us)) (int (length us))),
                data = map summary_of (take (nat (int (length us)))
                         (drop (nat ((1 - 1) * int (length us))) S))\<rparr>"
    by (rule getUsers_paged [OF search_users_none S]) simp_all
  then have "\<exists>r. getUsers 1 None None (Some s) us = Some r \<and> data r = map summary_of S"
    using len by simp
  with S m asc desc stable show ?thesis by blast
qed

lemma sort_keys_eval:
  "spec_sort_key ''name'' bob = ''bob''" "spec_sort_key ''name'' alice = ''alice''"
  "spec_sort_key ''name'' bobby = ''bob''"
  by (simp_all add: spec_sort_key_def toLowerCase_def lower_char_def bob_def alice_def bobby_def
        mk_user_def)

text \<open>
  The theorem at \<open>name:desc\<close> over Bob, Alice, BOB: the two users with key \<open>bob\<close>
  come first, in their original order.  The spec is read without regard to case and
  blanks, and a field outside the allow-list sorts by e-mail address.
\<close>

theorem sort_by_allowed_key_stable_witness:
  "sort_users (Some ''name:desc'') [bob, alice, bobby] = Inr [bob, bobby, alice]
   \<and> sorted_wrt (\<lambda>a b. spec_sort_key ''name'' b \<le> spec_sort_key ''name'' a) [bob, bobby, alice]
   \<and> filter (\<lambda>u. spec_sort_key ''name'' u = ''bob'') [bob, bobby, alice] = [bob, bobby]
   \<and> sort_users (Some ''Name : Asc'') [bob, alice, bobby] = Inr [alice, bob, bobby]
   \<and> sort_users (Some ''phone:'') [bob, alice] = Inr [alice, bob]"
proof -
  have w: "map (\<lambda>part. toLowerCase (trim part)) (split_str CHR '':'' ''name:desc'')
             = [''name'', ''desc'']"
    by (simp add: trim_def is_space_def toLowerCase_def lower_char_def)
  have e1: "sort_users (Some ''name:desc'') [bob, alice, bobby] = Inr [bob, bobby, alice]"
    by code_simp
  have e2: "sort_users (Some ''Name : Asc'') [bob, alice, bobby] = Inr [alice, bob, bobby]"
    by code_simp
  have e3: "sort_users (Some ''phone:'') [bob, alice] = Inr [alice, bob]"
    by code_simp
  from sort_by_allowed_key_stable [OF w, of "[bob, alice, bobby]"] e1
  have "sorted_wrt (\<lambda>a b. spec_sort_key ''name'' b \<le> spec_sort_key ''name'' a) [bob, bobby, alice]
      \<and> (\<forall>k. filter (\<lambda>u. spec_sort_key ''name'' u = k) [bob, bobby, alice]
               = filter (\<lambda>u. spec_sort_key ''name'' u = k) [bob, alice, bobby])"
    by auto
  then show ?thesis
    using e1 e2 e3 by (simp add: sort_keys_eval)
qed


text \<open>
  C6.  For a page of at least 1, a page size of at least 1 and any collection \<open>fs\<close>
  left by the search step: with \<open>S\<close> the collection in sort order, the items are the
  summaries of the slice of \<open>S\<close> from index \<open>(page - 1) * l\<close> up to, not including,
  \<open>page * l\<close>, cut at the end of \<open>S\<close>; the count is the length of the collection, the
  number of pages the ceiling of count over page size, there is a previous page exactly
  when \<open>page > 1\<close> and a next page exactly when \<open>page\<close> is below the number of pages.
  A page beyond the last has no items and the same totals.
\<close>

theorem pagination_slice_and_totals:
  assumes "1 \<le> page" and "1 \<le> l" and "search_users search users = Inr (Some fs)"
  shows "\<exists>S. sort_users sp fs = Inr S \<and> mset S = mset fs
           \<and> getUsers page (Some l) search sp users =
               Some \<lparr>page_number = page, page_size = l, count_result = int (length fs),
                     total_pages = Num \<lceil>real (length fs) / real_of_int l\<rceil>,
                     has_previous_page = (1 < page),
                     has_next_page = (page < \<lceil>real (length fs) / real_of_int l\<rceil>),
                     data = map summary_of (take (nat l) (drop (nat ((page - 1) * l)) S))\<rparr>
           \<and> (\<lceil>real (length fs) / real_of_int l\<rceil> < page \<longrightarrow>
                take (nat l) (drop (nat ((page - 1) * l)) S) = [])"
proof -
  from sort_users_total [of sp fs] obtain S
    where S: "sort_users sp fs = Inr S" and m: "mset S = mset fs" by blast
  from m have len: "length S = length fs" by (rule mset_eq_length)
  from assms(2) have l0: "l \<noteq> 0" by simp
  from assms(1,2) have start: "0 \<le> (page - 1) * l" by simp
  have c: "ceil_div (int (length fs)) l = Num \<lceil>real (length fs) / real_of_int l\<rceil>"
    using ceil_div_ceiling [OF l0, of "int (length fs)"] by simp
  have "getUsers page (Some l) search sp users =
          Some \<lparr>page_number = page, page_size = l, count_result = int (length fs),
                total_pages = ceil_div (int (length fs)) l,
                has_previous_page = (1 < page),
                has_next_page = js_less page (ceil_div (int (length fs)) l),
                data = map summary_of (take (nat l) (drop (nat ((page - 1) * l)) S))\<rparr>"
    using assms(3) S _ start by (rule getUsers_paged) (simp add: l0)
  then have g: "getUsers page (Some l) search sp users =
          Some \<lparr>page_number = page, page_size = l, count_result = int (length fs),
                total_pages = Num \<lceil>real (length fs) / real_of_int l\<rceil>,
                has_previous_page = (1 < page),
                has_next_page = (page < \<lceil>real (length fs) / real_of_int l\<rceil>),
                data = map summary_of (take (nat l) (drop (nat ((page - 1) * l)) S))\<rparr>"
    by (simp add: c)
  have out: "take (nat l) (drop (nat ((page - 1) * l)) S) = []"
    if "\<lceil>real (length fs) / real_of_int l\<rceil> < page"
  proof -
    from that have "\<lceil>real_of_int (int (length fs)) / real_of_int l\<rceil> < page" by simp
    with assms(2) have "int (length fs) \<le> (page - 1) * l" by (rule ceiling_pages_cover)
    with len have "length S \<le> nat ((page - 1) * l)" by linarith
    then show ?thesis by simp
  qed
  from S m g out show ?thesis by blast
qed

text \<open>
  The theorem at page size 2 over five users: three pages; page 3 has one item, page 4
  none, with the totals unchanged.
\<close>

theorem pagination_slice_and_totals_witness:
  "getUsers 3 (Some 2) None None five_users =
     Some \<lparr>page_number = 3, page_size = 2, count_result = 5, total_pages = Num 3,
           has_previous_page = True, has_next_page = False,
           data = [summary_of bobby]\<rparr>
   \<and> getUsers 4 (Some 2) None None five_users =
     Some \<lparr>page_number = 4, page_size = 2, count_result = 5, total_pages = Num 3,
           has_previous_page = True, has_next_page = False, data = []\<rparr>
   \<and> getUsers 1 (Some 2) None None five_users =
     Some \<lparr>page_number = 1, page_size = 2, count_result = 5, total_pages = Num 3,
           has_previous_page = False, has_next_page = True,
           data = [summary_of alice, summary_of john]\<rparr>"
proof -
  have s: "search_users None five_users = Inr (Some five_users)"
    by (rule search_users_none)
  have n: "sort_users None five_users = Inr S \<longleftrightarrow> S = five_users" for S
    by (auto simp add: sort_users_def)
  have l: "length five_users = 5" by (simp add: five_users_def)
  have p3: "(1::int) \<le> 3" and p4: "(1::int) \<le> 4" and p1: "(1::int) \<le> 1" and l2: "(1::int) \<le> 2"
    by simp_all
  from pagination_slice_and_totals [OF p3 l2 s, of None]
  have a: "getUsers 3 (Some 2) None None five_users =
     Some \<lparr>page_number = 3, page_size = 2, count_result = 5, total_pages = Num 3,
           has_previous_page = True, has_next_page = False,
           data = [summary_of bobby]\<rparr>"
    by (auto simp add: n l) (simp add: five_users_def)
  from pagination_slice_and_totals [OF p4 l2 s, of None]
  have b: "getUsers 4 (Some 2) None None five_users =
     Some \<lparr>page_number = 4, page_size = 2, count_result = 5, total_pages = Num 3,
           has_previous_page = True, has_next_page = False, data = []\<rparr>"
    by (auto simp add: n l)
  from pagination_slice_and_totals [OF p1 l2 s, of None]
  have c: "getUsers 1 (Some 2) None None five_users =
     Some \<lparr>page_number = 1, page_size = 2, count_result = 5, total_pages = Num 3,
           has_previous_page = False, has_next_page = True,
           data = [summary_of alice, summary_of john]\<rparr>"
    by (auto simp add: n l) (simp add: five_users_def)
  from a b c show ?thesis by simp
qed

text \<open>
  C7.  The claim: for an empty user set and no search, the result has count 0, 0 pages
  and no items.  Without a page size the code sets \<^verbatim>\<open>limit\<close> to the count, which is
  0, and computes \<^verbatim>\<open>Math.ceil(0 / 0)\<close>: the number of pages is \<^verbatim>\<open>NaN\<close>, not 0.
\<close>

theorem empty_set_total_pages_nan:
  "getUsers page None None sp [] =
     Some \<lparr>page_number = page, page_size = 0, count_result = 0, total_pages = NaN,
           has_previous_page = (1 < page), has_next_page = False, data = []\<rparr>"
proof -
  from sort_users_total [of sp "[]"] have S: "sort_users sp [] = Inr []" by simp
  have "getUsers page None None sp [] =
          Some \<lparr>page_number = page, page_size = 0, count_result = int (length ([] :: user list)),
                total_pages = ceil_div (int (length ([] :: user list))) 0,
                has_previous_page = (1 < page),
                has_next_page = js_less page (ceil_div (int (length ([] :: user list))) 0),
                data = map summary_of (take (nat 0) (drop (nat ((page - 1) * 0)) []))\<rparr>"
    by (rule getUsers_paged [OF search_users_none S]) simp_all
  then show ?thesis by (simp add: ceil_div_def)
qed

text \<open>
  C8.  A search string, or a sort string, that does not split at \<open>:\<close> into exactly
  two parts changes nothing: the answer is the one given without it.  A search with two
  parts whose field is not a string attribute of the user ends in \<^verbatim>\<open>null\<close>: the
  TypeError, thrown when there is a user to look at, is caught inside the function.
\<close>

theorem malformed_specs_are_ignored:
  "(length (split_str CHR '':'' s) \<noteq> 2 \<longrightarrow>
      getUsers page limit (Some s) sp users = getUsers page limit None sp users
    \<and> getUsers page limit search (Some s) users = getUsers page limit search None users)
   \<and> (map trim (split_str CHR '':'' s) = [field, val] \<and> field \<notin> set user_fields \<longrightarrow>
      getUsers page limit (Some s) sp users = None
    \<and> getUsers_try page limit (Some s) sp users
        = (if users = [] then Inr None else Inl TypeError))"
proof -
  have a: "getUsers page limit (Some s) sp users = getUsers page limit None sp users"
    if "length (split_str CHR '':'' s) \<noteq> 2"
    using that
    by (simp add: getUsers_def getUsers_try_def search_users_malformed search_users_none)
  have b: "getUsers page limit search (Some s) users = getUsers page limit search None users"
    if "length (split_str CHR '':'' s) \<noteq> 2"
  proof -
    have "sort_users (Some s) fs = Inr fs" for fs
      using that by (rule sort_users_malformed)
    moreover have "sort_users None fs = Inr fs" for fs
      by (simp add: sort_users_def)
    ultimately have eq: "sort_users (Some s) fs = sort_users None fs" for fs
      by simp
    show ?thesis
      by (cases "search_users search users")
         (simp_all add: getUsers_def getUsers_try_def eq split: option.splits)
  qed
  have c: "getUsers_try page limit (Some s) sp users
             = (if users = [] then Inr None else Inl TypeError)"
    if "map trim (split_str CHR '':'' s) = [field, val]" "field \<notin> set user_fields"
    using that by (simp add: getUsers_try_def search_users_unknown)
  have d: "getUsers page limit (Some s) sp users = None"
    if "map trim (split_str CHR '':'' s) = [field, val]" "field \<notin> set user_fields"
    using c [OF that] by (simp add: getUsers_def)
  show ?thesis
  proof (intro conjI impI)
    assume m: "length (split_str CHR '':'' s) \<noteq> 2"
    from m show "getUsers page limit (Some s) sp users = getUsers page limit None sp users"
      by (rule a)
    from m show "getUsers page limit search (Some s) users = getUsers page limit search None users"
      by (rule b)
  next
    assume u: "map trim (split_str CHR '':'' s) = [field, val] \<and> field \<notin> set user_fields"
    then show "getUsers page limit (Some s) sp users = None"
      by (intro d) simp_all
    from u show "getUsers_try page limit (Some s) sp users
                   = (if users = [] then Inr None else Inl TypeError)"
      by (intro c) simp_all
  qed
qed

text \<open>
  The theorem at a search with one part, a sort with three parts, and a search on the
  unknown field \<open>nickname\<close>.
\<close>

theorem malformed_specs_are_ignored_witness:
  "getUsers 1 None (Some ''name'') None [john, bob] = getUsers 1 None None None [john, bob]
   \<and> getUsers 1 None None (Some ''name:desc:x'') [john, bob] = getUsers 1 None None None [john, bob]
   \<and> getUsers 1 None None None [john, bob] =
       Some \<lparr>page_number = 1, page_size = 2, count_result = 2, total_pages = Num 1,
             has_previous_page = False, has_next_page = False,
             data = [summary_of john, summary_of bob]\<rparr>
   \<and> getUsers 1 None (Some ''nickname:Jo'') None [john, bob] = None
   \<and> getUsers_try 1 None (Some ''nickname:Jo'') None [john, bob] = Inl TypeError"
proof -
  have m1: "length (split_str CHR '':'' ''name'') \<noteq> 2" by simp
  have m2: "length (split_str CHR '':'' ''name:desc:x'') \<noteq> 2" by simp
  have w: "map trim (split_str CHR '':'' ''nickname:Jo'') = [''nickname'', ''Jo'']
           \<and> ''nickname'' \<notin> set user_fields"
    by (simp add: trim_def is_space_def user_fields_def)
  have g: "getUsers 1 None None None [john, bob] =
       Some \<lparr>page_number = 1, page_size = 2, count_result = 2, total_pages = Num 1,
             has_previous_page = False, has_next_page = False,
             data = [summary_of john, summary_of bob]\<rparr>"
    using getUsers_paged [where search = None and users = "[john, bob]" and fs = "[john, bob]"
            and sp = None and S = "[john, bob]" and limit = None and psize = 2 and page = 1]
    by (simp add: search_users_none sort_users_def ceil_div_def)
  from malformed_specs_are_ignored
         [of "''name''" 1 None None "[john, bob]" None "''x''" "''y''"] m1
  have a: "getUsers 1 None (Some ''name'') None [john, bob] = getUsers 1 None None None [john, bob]"
    by blast
  from malformed_specs_are_ignored
         [of "''name:desc:x''" 1 None None "[john, bob]" None "''x''" "''y''"] m2
  have b: "getUsers 1 None None (Some ''name:desc:x'') [john, bob]
             = getUsers 1 None None None [john, bob]"
    by blast
  from malformed_specs_are_ignored
         [of "''nickname:Jo''" 1 None None "[john, bob]" None "''nickname''" "''Jo''"] w
  have c: "getUsers 1 None (Some ''nickname:Jo'') None [john, bob] = None
         \<and> getUsers_try 1 None (Some ''nickname:Jo'') None [john, bob] = Inl TypeError"
    by simp
  from a b c g show ?thesis by simp
qed

lemma getUsers_try_SomeE:
  assumes "getUsers_try page limit search sp users = Inr (Some r)"
  obtains fs S items startIndex endIndex
    where "search_users search users = Inr (Some fs)"
      and "sort_users sp fs = Inr S"
      and "collect S startIndex endIndex [] = Inr items"
      and "data r = items"
proof (cases "search_users search users")
  case (Inl err)
  with assms show ?thesis by (simp add: getUsers_try_def)
next
  case (Inr found)
  show ?thesis
  proof (cases found)
    case None
    with Inr assms show ?thesis by (simp add: getUsers_try_def)
  next
    case (Some fs)
    show ?thesis
    proof (cases "sort_users sp fs")
      case (Inl err)
      with Inr Some assms show ?thesis by (simp add: getUsers_try_def)
    next
      case S: (Inr S)
      define psize where "psize = (case limit of None \<Rightarrow> int (length fs)
                                   | Some l \<Rightarrow> if l = 0 then int (length fs) else l)"
      show ?thesis
      proof (cases "collect S ((page - 1) * psize) (page * psize) []")
        case (Inl err)
        with Inr Some S assms show ?thesis
          by (simp add: getUsers_try_def Let_def psize_def)
      next
        case items: (Inr items)
        with Inr Some S assms have "data r = items"
          by (auto simp add: getUsers_try_def Let_def psize_def)
        with Inr Some S items that show ?thesis by blast
      qed
    qed
  qed
qed

lemma summary_of_password: "summary_of (u\<lparr>password := p\<rparr>) = summary_of u"
  by (simp add: summary_of_def)

text \<open>
  C9.  Whatever the page, page size, search and sort: every item of a result has the
  six keys \<open>id\<close>, \<open>name\<close>, \<open>balance\<close>, \<open>email\<close>, \<open>phone\<close>, \<open>account_number\<close>, in
  this order, and no key \<open>password\<close>; it is the summary of one of the users, and the
  summary of a user does not depend on the user's password.
\<close>

theorem summaries_expose_six_fields:
  assumes "getUsers page limit search sp users = Some r"
  shows "\<forall>item \<in> set (data r).
           map fst item = [''id'', ''name'', ''balance'', ''email'', ''phone'', ''account_number'']
         \<and> ''password'' \<notin> fst ` set item
         \<and> (\<exists>u \<in> set users. item = summary_of u \<and> (\<forall>p. summary_of (u\<lparr>password := p\<rparr>) = item))"
proof
  fix item
  assume i: "item \<in> set (data r)"
  from assms have "getUsers_try page limit search sp users = Inr (Some r)"
    by (simp add: getUsers_def split: sum.splits)
  then obtain fs S items startIndex endIndex
    where se: "search_users search users = Inr (Some fs)"
      and so: "sort_users sp fs = Inr S"
      and co: "collect S startIndex endIndex [] = Inr items"
      and d: "data r = items"
    by (rule getUsers_try_SomeE)
  from sort_users_total [of sp fs] so have "mset S = mset fs" by simp
  then have "set S = set fs" by (rule mset_eq_setD)
  with search_users_subset [OF se] have sub: "set S \<subseteq> set users" by simp
  from collect_items [OF co] i d have "item \<in> summary_of ` set S" by auto
  with sub obtain u where u: "u \<in> set users" "item = summary_of u" by auto
  have k: "map fst (summary_of u)
             = [''id'', ''name'', ''balance'', ''email'', ''phone'', ''account_number'']"
    by (simp add: summary_of_def)
  have "''password'' \<notin> set (map fst (summary_of u))"
    unfolding k by simp
  then have "''password'' \<notin> fst ` set (summary_of u)" by simp
  with u k show "map fst item = [''id'', ''name'', ''balance'', ''email'', ''phone'', ''account_number'']
         \<and> ''password'' \<notin> fst ` set item
         \<and> (\<exists>u \<in> set users. item = summary_of u \<and> (\<forall>p. summary_of (u\<lparr>password := p\<rparr>) = item))"
    using summary_of_password by blast
qed

text \<open>
  The theorem at a search on the password field itself: John is found, and his summary
  has no password.
\<close>

theorem summaries_expose_six_fields_witness:
  "getUsers 1 None (Some ''password:hash'') None [john] =
     Some \<lparr>page_number = 1, page_size = 1, count_result = 1, total_pages = Num 1,
           has_previous_page = False, has_next_page = False,
           data = [[(''id'', ''u1''), (''name'', ''John''), (''balance'', ''0''),
                    (''email'', ''john@example.com''), (''phone'', ''0800''),
                    (''account_number'', ''5351'')]]\<rparr>
   \<and> ''password'' \<notin> fst ` set [(''id'', ''u1''), (''name'', ''John''), (''balance'', ''0''),
                    (''email'', ''john@example.com''), (''phone'', ''0800''),
                    (''account_number'', ''5351'')]"
proof -
  have g: "getUsers 1 None (Some ''password:hash'') None [john] =
     Some \<lparr>page_number = 1, page_size = 1, count_result = 1, total_pages = Num 1,
           has_previous_page = False, has_next_page = False,
           data = [[(''id'', ''u1''), (''name'', ''John''), (''balance'', ''0''),
                    (''email'', ''john@example.com''), (''phone'', ''0800''),
                    (''account_number'', ''5351'')]]\<rparr>"
    by code_simp
  let ?item = "[(''id'', ''u1''), (''name'', ''John''), (''balance'', ''0''),
                (''email'', ''john@example.com''), (''phone'', ''0800''),
                (''account_number'', ''5351'')] :: summary"
  let ?r = "\<lparr>page_number = 1, page_size = 1, count_result = 1, total_pages = Num 1,
             has_previous_page = False, has_next_page = False, data = [?item]\<rparr>"
  have i: "?item \<in> set (data ?r)" by simp
  have "map fst ?item = [''id'', ''name'', ''balance'', ''email'', ''phone'', ''account_number'']
      \<and> ''password'' \<notin> fst ` set ?item
      \<and> (\<exists>u \<in> set [john]. ?item = summary_of u
             \<and> (\<forall>p. summary_of (u\<lparr>password := p\<rparr>) = ?item))"
    using summaries_expose_six_fields [OF g] i by (rule bspec)
  then have "''password'' \<notin> fst ` set ?item"
    by (elim conjE)
  with g show ?thesis by (rule conjI)
qed

end
